theory Spec2Isabelle
  imports Main "HOL-Library.Word"
begin

section \<open>Data model\<close>

text \<open>
  The structures of \<^verbatim>\<open>Bootstrap Compiler.cpp\<close>: \<^verbatim>\<open>struct Entity\<close> and
  \<^verbatim>\<open>class BAST\<close>. A \<^verbatim>\<open>std::string\<close> is a \<^typ>\<open>string\<close>, a
  \<^verbatim>\<open>std::vector\<close> a list.
\<close>

record Entity =
  command :: string
  args :: "string list"

record BAST =
  Imports :: "string list"
  Entities :: "Entity list"
  References :: "string list"
  Details :: "string list"
  Raw :: "string list"

text \<open>
  The exceptions the string library can raise in the code below:
  \<^verbatim>\<open>substr\<close> and \<^verbatim>\<open>erase\<close> throw \<^verbatim>\<open>std::out_of_range\<close> when the
  start position lies beyond the end of the string.
\<close>

datatype error = out_of_range

section \<open>The string library as the program uses it\<close>

definition NL :: char where
  "NL = CHR 0x0A"

definition starts_with :: "string \<Rightarrow> string \<Rightarrow> bool" where
  "starts_with s p = (take (length p) s = p)"

text \<open>
  \<^verbatim>\<open>s.find(pat)\<close>: the position of the first occurrence of \<open>pat\<close>, \<open>None\<close> for
  \<^verbatim>\<open>npos\<close>.
\<close>

fun find_str :: "string \<Rightarrow> string \<Rightarrow> nat option" where
  "find_str [] pat = (if pat = [] then Some 0 else None)"
| "find_str (c # cs) pat =
     (if starts_with (c # cs) pat then Some 0 else map_option Suc (find_str cs pat))"

text \<open>
  \<^verbatim>\<open>s.find_first_not_of(cs)\<close> and \<^verbatim>\<open>s.find_last_not_of(cs)\<close>: the first and
  the last position holding a character that is not in \<open>cs\<close>, \<open>None\<close> for
  \<^verbatim>\<open>npos\<close>.
\<close>

fun find_first_not_of :: "string \<Rightarrow> string \<Rightarrow> nat option" where
  "find_first_not_of [] cs = None"
| "find_first_not_of (c # s) cs =
     (if c \<notin> set cs then Some 0 else map_option Suc (find_first_not_of s cs))"

definition find_last_not_of :: "string \<Rightarrow> string \<Rightarrow> nat option" where
  "find_last_not_of s cs =
     (case find_first_not_of (rev s) cs of
        None \<Rightarrow> None
      | Some k \<Rightarrow> Some (length s - 1 - k))"

text \<open>
  \<^verbatim>\<open>s.substr(pos, count)\<close> and \<^verbatim>\<open>s.erase(pos, count)\<close>. The count \<open>None\<close> is
  \<^verbatim>\<open>npos\<close>, the default: up to the end of the string. Both throw when
  \<open>pos > size\<close>.
\<close>

definition substr :: "string \<Rightarrow> nat \<Rightarrow> nat option \<Rightarrow> error + string" where
  "substr s pos cnt =
     (if pos > length s then Inl out_of_range
      else Inr (case cnt of None \<Rightarrow> drop pos s | Some n \<Rightarrow> take n (drop pos s)))"

definition erase :: "string \<Rightarrow> nat \<Rightarrow> nat option \<Rightarrow> error + string" where
  "erase s pos cnt =
     (if pos > length s then Inl out_of_range
      else Inr (case cnt of None \<Rightarrow> take pos s | Some n \<Rightarrow> take pos s @ drop (pos + n) s))"

text \<open>
  \<^verbatim>\<open>std::getline(stream, line, delim)\<close> on a string stream whose unread content is
  \<open>s\<close>: characters are extracted up to the delimiter, which is consumed and not
  stored, or up to the end of the stream. The call fails (\<open>None\<close>) when nothing
  at all could be extracted; otherwise it yields the line and the unread rest.
\<close>

definition getline :: "string \<Rightarrow> char \<Rightarrow> (string \<times> string) option" where
  "getline s delim =
     (if s = [] then None
      else Some (takeWhile (\<lambda>c. c \<noteq> delim) s, drop 1 (dropWhile (\<lambda>c. c \<noteq> delim) s)))"

section \<open>Line splitter\<close>

text \<open>
  \<^verbatim>\<open>split_lines\<close>: the loop \<^verbatim>\<open>while (std::getline(iss, line)) lines.push_back(line)\<close>.
\<close>

function split_loop :: "string \<Rightarrow> string list \<Rightarrow> string list" where
  "split_loop iss lines =
     (case getline iss NL of
        None \<Rightarrow> lines
      | Some (line, iss') \<Rightarrow> split_loop iss' (lines @ [line]))"
  by pat_completeness auto
termination
proof (relation "measure (\<lambda>(iss, lines). length iss)", goal_cases)
  case 1
  show ?case by simp
next
  case (2 iss lines x2 line iss')
  then have "iss \<noteq> []" and "iss' = drop 1 (dropWhile (\<lambda>c. c \<noteq> NL) iss)"
    by (auto simp: getline_def split: if_splits)
  moreover have "length (dropWhile (\<lambda>c. c \<noteq> NL) iss) \<le> length iss"
    by (rule length_dropWhile_le)
  ultimately show ?case
    by (cases iss) auto
qed

declare split_loop.simps [simp del]

definition split_lines :: "string \<Rightarrow> string list" where
  "split_lines text = split_loop text []"

section \<open>Entity line parser\<close>

definition whitespace :: string where
  "whitespace = [CHR '' '', CHR 0x09, CHR 0x0A, CHR 0x0D]"

text \<open>
  The two \<^verbatim>\<open>erase\<close> calls on a token. \<^verbatim>\<open>find_first_not_of\<close> gives the count of
  the first call, \<^verbatim>\<open>npos\<close> (erase everything) when the token is all
  whitespace. The second call starts at \<^verbatim>\<open>find_last_not_of(...) + 1\<close>, computed
  in \<^verbatim>\<open>size_t\<close>: \<^verbatim>\<open>npos + 1\<close> wraps around to 0.
\<close>

definition trim_token :: "string \<Rightarrow> error + string" where
  "trim_token token =
     (case erase token 0 (find_first_not_of token whitespace) of
        Inl e \<Rightarrow> Inl e
      | Inr token' \<Rightarrow>
          erase token' (case find_last_not_of token' whitespace of None \<Rightarrow> 0 | Some k \<Rightarrow> k + 1)
            None)"

text \<open>
  The loop \<^verbatim>\<open>while (std::getline(ss, token, ','))\<close> of \<^verbatim>\<open>parse_entity_line\<close>,
  with \<^verbatim>\<open>ent.args\<close> as the accumulator.
\<close>

function token_loop :: "string \<Rightarrow> string list \<Rightarrow> error + string list" where
  "token_loop ss as =
     (case getline ss (CHR '','') of
        None \<Rightarrow> Inr as
      | Some (token, ss') \<Rightarrow>
          (case trim_token token of
             Inl e \<Rightarrow> Inl e
           | Inr token' \<Rightarrow> token_loop ss' (if token' \<noteq> [] then as @ [token'] else as)))"
  by pat_completeness auto
termination
proof (relation "measure (\<lambda>(ss, as). length ss)", goal_cases)
  case 1
  show ?case by simp
next
  case (2 ss as x2 token ss' token')
  then have "ss \<noteq> []" and "ss' = drop 1 (dropWhile (\<lambda>c. c \<noteq> CHR '','') ss)"
    by (auto simp: getline_def split: if_splits)
  moreover have "length (dropWhile (\<lambda>c. c \<noteq> CHR '','') ss) \<le> length ss"
    by (rule length_dropWhile_le)
  ultimately show ?case
    by (cases ss) auto
qed

declare token_loop.simps [simp del]

text \<open>
  The test that guards the stripping of the parentheses, and the stripping:
  \<^verbatim>\<open>rest.substr(1, rest.size() - 2)\<close>. Under the test the size is at least 2 (one
  character cannot be both parentheses), so the subtraction does not wrap.
\<close>

definition paren_test :: "string \<Rightarrow> bool" where
  "paren_test rest = (rest \<noteq> [] \<and> hd rest = CHR ''('' \<and> last rest = CHR '')'')"

definition parse_entity_line :: "string \<Rightarrow> error + Entity" where
  "parse_entity_line line =
     (case find_str line ''??'' of
        Some cmd_pos \<Rightarrow>
          (case substr line 0 (Some cmd_pos) of
             Inl e \<Rightarrow> Inl e
           | Inr cmd \<Rightarrow>
               (case substr line (cmd_pos + 2) None of
                  Inl e \<Rightarrow> Inl e
                | Inr rest \<Rightarrow>
                    (case (if paren_test rest then substr rest 1 (Some (length rest - 2))
                           else Inr rest) of
                       Inl e \<Rightarrow> Inl e
                     | Inr rest' \<Rightarrow>
                         (case token_loop rest' [] of
                            Inl e \<Rightarrow> Inl e
                          | Inr as \<Rightarrow> Inr \<lparr>command = cmd, args = as\<rparr>))))
      | None \<Rightarrow> Inr \<lparr>command = line, args = []\<rparr>)"

section \<open>Program block extractor\<close>

text \<open>
  The loop of \<^verbatim>\<open>parse_entities_structured\<close>; the state is the flag
  \<^verbatim>\<open>inside_program\<close> and the vector \<^verbatim>\<open>entities\<close>.
\<close>

fun entities_loop :: "string list \<Rightarrow> bool \<Rightarrow> Entity list \<Rightarrow> error + Entity list" where
  "entities_loop [] inside_program entities = Inr entities"
| "entities_loop (line # lines) inside_program entities =
     (if line = ''#start'' then entities_loop lines True entities
      else if line = ''#end'' then entities_loop lines False entities
      else if inside_program \<and> line \<noteq> [] then
        (case parse_entity_line line of
           Inl e \<Rightarrow> Inl e
         | Inr ent \<Rightarrow> entities_loop lines inside_program (entities @ [ent]))
      else entities_loop lines inside_program entities)"

definition parse_entities_structured :: "string list \<Rightarrow> error + Entity list" where
  "parse_entities_structured lines = entities_loop lines False []"

section \<open>Import collector\<close>

fun parse_imports :: "string list \<Rightarrow> BAST \<Rightarrow> error + BAST" where
  "parse_imports [] bast = Inr bast"
| "parse_imports (line # lines) bast =
     (if starts_with line ''#import '' then
        (case substr line 8 None of
           Inl e \<Rightarrow> Inl e
         | Inr lib \<Rightarrow>
             parse_imports lines
               (if lib \<notin> set (Imports bast) then bast\<lparr>Imports := Imports bast @ [lib]\<rparr>
                else bast))
      else parse_imports lines bast)"

section \<open>Reference builder\<close>

text \<open>
  \<^verbatim>\<open>std::format("{}", n)\<close> for an integer: its decimal digits, with a minus sign
  when negative.
\<close>

definition digit_char :: "nat \<Rightarrow> char" where
  "digit_char d = ''0123456789'' ! d"

fun show_nat :: "nat \<Rightarrow> string" where
  "show_nat n = (if n < 10 then [digit_char n] else show_nat (n div 10) @ [digit_char (n mod 10)])"

declare show_nat.simps [simp del]

definition show_int :: "int \<Rightarrow> string" where
  "show_int i = (if i < 0 then CHR ''-'' # show_nat (nat (- i)) else show_nat (nat i))"

text \<open>
  The scan of \<^verbatim>\<open>parse_references\<close>. The counter \<open>i\<close> is a \<^verbatim>\<open>size_t\<close> below
  \<^verbatim>\<open>lines.size()\<close>, so \<open>i + 1\<close> does not wrap; \<^verbatim>\<open>start_line\<close> and
  \<^verbatim>\<open>end_line\<close> are \<^verbatim>\<open>int\<close>, 32 bits wide, and the assignment keeps the low 32
  bits of \<open>i + 1\<close>.
\<close>

function markers_loop :: "string list \<Rightarrow> nat \<Rightarrow> 32 word \<Rightarrow> 32 word \<Rightarrow> 32 word \<times> 32 word" where
  "markers_loop lines i start_line end_line =
     (if i < length lines then
        markers_loop lines (i + 1)
          (if lines ! i = ''#start'' then word_of_nat (i + 1) else start_line)
          (if lines ! i = ''#end'' then word_of_nat (i + 1) else end_line)
      else (start_line, end_line))"
  by pat_completeness auto
termination
  by (relation "measure (\<lambda>(lines, i, s, e). length lines - i)") auto

declare markers_loop.simps [simp del]

definition parse_references :: "string list \<Rightarrow> BAST \<Rightarrow> BAST" where
  "parse_references lines bast =
     (case markers_loop lines 0 (- 1) (- 1) of
        (start_line, end_line) \<Rightarrow>
          bast\<lparr>References := References bast @
            [''start:'' @ show_int (sint start_line) @ '';'',
             ''end:'' @ show_int (sint end_line) @ '';'',
             ''endcode:'' @ show_int (sint end_line) @ '';'',
             ''bootstrapver:b26;'',
             ''bootstraprqcomp:b26c;'',
             ''bootstrapast:b26bast;'']\<rparr>)"

section \<open>Assembler and debug serializer\<close>

text \<open>
  \<^verbatim>\<open>get_time\<close>: the clock's seconds since the epoch, returned as an
  \<^verbatim>\<open>int\<close>.
\<close>

definition get_time :: "int \<Rightarrow> 32 word" where
  "get_time seconds = word_of_int seconds"

text \<open>
  The first half of the \<^verbatim>\<open>try\<close> block of \<^verbatim>\<open>Compiler::compile\<close>, from the
  content of the file to the finished \<^verbatim>\<open>BAST26\<close>, which starts as a
  default-constructed \<^verbatim>\<open>BAST\<close>: every vector empty.
\<close>

definition default_BAST :: BAST where
  "default_BAST = \<lparr>Imports = [], Entities = [], References = [], Details = [], Raw = []\<rparr>"

definition assemble :: "string \<Rightarrow> 32 word \<Rightarrow> string \<Rightarrow> error + BAST" where
  "assemble fileloc start_time content =
     (let filelines = split_lines content;
          BAST26 = default_BAST\<lparr>Raw := filelines\<rparr>
      in case parse_imports filelines BAST26 of
           Inl e \<Rightarrow> Inl e
         | Inr BAST26 \<Rightarrow>
             (let BAST26 = parse_references filelines BAST26
              in case parse_entities_structured filelines of
                   Inl e \<Rightarrow> Inl e
                 | Inr entities \<Rightarrow>
                     Inr (BAST26\<lparr>Entities := entities,
                            Details :=
                              [''projectname='' @ fileloc,
                               ''compile-start:'' @ show_int (sint start_time),
                               ''num-entities:'' @ show_nat (length entities)]\<rparr>)))"

text \<open>
  The second half: what is written to \<^verbatim>\<open>debugFile\<close>. The inner loop over
  \<^verbatim>\<open>ent.args\<close> runs on the index \<open>i\<close>; \<open>out\<close> is what the loop has written so
  far.
\<close>

function args_loop :: "string list \<Rightarrow> nat \<Rightarrow> string \<Rightarrow> string" where
  "args_loop as i out =
     (if i < length as then
        args_loop as (i + 1) (out @ as ! i @ (if i + 1 < length as then '', '' else []))
      else out)"
  by pat_completeness auto
termination
  by (relation "measure (\<lambda>(as, i, out). length as - i)") auto

declare args_loop.simps [simp del]

definition write_entity :: "Entity \<Rightarrow> string" where
  "write_entity ent =
     command ent @
     (if args ent \<noteq> [] then '' ?? ('' @ args_loop (args ent) 0 [] @ '')'' else []) @
     '';'' @ [NL]"

definition write_lines :: "string list \<Rightarrow> string" where
  "write_lines ls = concat (map (\<lambda>line. line @ [NL]) ls)"

definition serialize :: "BAST \<Rightarrow> string" where
  "serialize bast =
     '';;details'' @ [NL] @ write_lines (Details bast) @
     '';;raw'' @ [NL] @ write_lines (Raw bast) @
     '';;imports'' @ [NL] @ write_lines (Imports bast) @
     '';;entities'' @ [NL] @ concat (map write_entity (Entities bast)) @
     '';;references'' @ [NL] @ write_lines (References bast)"

text \<open>
  \<^verbatim>\<open>Compiler::compile\<close>. The world outside the program: the files that can be
  opened for reading with their content, the paths that can be opened for
  writing, the clock, and the text \<^verbatim>\<open>what()\<close> of an exception. The result:
  the exit code, what was printed, and the files afterwards. An output file
  that cannot be opened raises nothing: the writes are lost and the exit code
  is still 0. The exceptions of the \<^verbatim>\<open>try\<close> block all derive from
  \<^verbatim>\<open>std::exception\<close> and arise before the output file is opened, so the
  handler \<^verbatim>\<open>catch (...)\<close> is never entered and a failure leaves the files as
  they were.
\<close>

record world =
  files :: "string \<Rightarrow> string option"
  writable :: "string \<Rightarrow> bool"
  clock :: int
  what :: "error \<Rightarrow> string"

record result =
  exit_code :: int
  stdout :: string
  files_after :: "string \<Rightarrow> string option"

definition compile :: "world \<Rightarrow> string \<Rightarrow> string \<Rightarrow> result" where
  "compile w fileloc o_name =
     (case files w fileloc of
        None \<Rightarrow>
          \<lparr>exit_code = 1,
           stdout = ''b26c=1'' @ [NL] @ ''file-opened: 0'' @ [NL],
           files_after = files w\<rparr>
      | Some content \<Rightarrow>
          (case assemble fileloc (get_time (clock w)) content of
             Inl e \<Rightarrow>
               \<lparr>exit_code = 1,
                stdout = ''b26c=1'' @ [NL] @ ''error: '' @ what w e @ [NL],
                files_after = files w\<rparr>
           | Inr BAST26 \<Rightarrow>
               \<lparr>exit_code = 0,
                stdout = [],
                files_after =
                  (if writable w (o_name @ ''.btspdebug'')
                   then (files w)(o_name @ ''.btspdebug'' \<mapsto> serialize BAST26)
                   else files w)\<rparr>))"

section \<open>Notions of the specification\<close>

text \<open>
  The inside-program flag as the specification describes it: false initially,
  set true by each \<^verbatim>\<open>#start\<close> line and false by each \<^verbatim>\<open>#end\<close> line.
  \<open>inside_flag ls\<close> is the flag after the lines \<open>ls\<close>.
\<close>

definition flag_step :: "bool \<Rightarrow> string \<Rightarrow> bool" where
  "flag_step b line = (if line = ''#start'' then True else if line = ''#end'' then False else b)"

definition inside_flag :: "string list \<Rightarrow> bool" where
  "inside_flag ls = foldl flag_step False ls"

text \<open>
  The positions (from 0) of the lines that the specification makes entities:
  non-empty, not a marker, and met while the flag is true.
\<close>

definition entity_positions :: "string list \<Rightarrow> nat list" where
  "entity_positions lines =
     filter (\<lambda>i. lines ! i \<noteq> [] \<and> lines ! i \<noteq> ''#start'' \<and> lines ! i \<noteq> ''#end'' \<and>
                 inside_flag (take i lines))
       [0..<length lines]"

text \<open>
  \<open>p\<close> is the 1-based position of the last line equal to \<open>m\<close>.
\<close>

definition is_last_pos :: "string \<Rightarrow> string list \<Rightarrow> nat \<Rightarrow> bool" where
  "is_last_pos m lines p =
     (1 \<le> p \<and> p \<le> length lines \<and> lines ! (p - 1) = m \<and> m \<notin> set (drop p lines))"

text \<open>
  Splitting on a separator in the usual sense (\<open>n\<close> separators give \<open>n + 1\<close>
  pieces), trimming whitespace at both ends, and joining with a separator.
\<close>

fun spec_split :: "char \<Rightarrow> string \<Rightarrow> string list" where
  "spec_split d [] = [[]]"
| "spec_split d (c # cs) =
     (if c = d then [] # spec_split d cs
      else (case spec_split d cs of p # ps \<Rightarrow> (c # p) # ps | [] \<Rightarrow> [[c]]))"

definition is_space :: "char \<Rightarrow> bool" where
  "is_space c = (c = CHR '' '' \<or> c = CHR 0x09 \<or> c = CHR 0x0A \<or> c = CHR 0x0D)"

definition spec_trim :: "string \<Rightarrow> string" where
  "spec_trim t = rev (dropWhile is_space (rev (dropWhile is_space t)))"

definition spec_args :: "string \<Rightarrow> string list" where
  "spec_args payload = filter (\<lambda>t. t \<noteq> []) (map spec_trim (spec_split (CHR '','') payload))"

fun join :: "string \<Rightarrow> string list \<Rightarrow> string" where
  "join sep [] = []"
| "join sep [x] = x"
| "join sep (x # y # ys) = x @ sep @ join sep (y # ys)"

text \<open>
  A payload wrapped in a pair of parentheses spanning its full length: it opens
  with a parenthesis whose partner is the parenthesis that closes it, so what
  lies between them is balanced.
\<close>

fun balanced :: "string \<Rightarrow> nat \<Rightarrow> bool" where
  "balanced [] depth = (depth = 0)"
| "balanced (c # cs) depth =
     (if c = CHR ''('' then balanced cs (depth + 1)
      else if c = CHR '')'' then depth > 0 \<and> balanced cs (depth - 1)
      else balanced cs depth)"

definition spec_wrapped :: "string \<Rightarrow> bool" where
  "spec_wrapped payload =
     (2 \<le> length payload \<and> hd payload = CHR ''('' \<and> last payload = CHR '')'' \<and>
      balanced (butlast (tl payload)) 0)"

definition parens :: "string \<Rightarrow> string" where
  "parens s = filter (\<lambda>c. c = CHR ''('' \<or> c = CHR '')'') s"

text \<open>
  What a \<^verbatim>\<open>getline\<close> loop makes of the pieces of a text: a final empty piece
  is not delivered.
\<close>

definition drop_last_empty :: "string list \<Rightarrow> string list" where
  "drop_last_empty ps = (if last ps = [] then butlast ps else ps)"

text \<open>
  The line of an entity in the words of the specification: the command, then,
  only if there are arguments, \<^verbatim>\<open> ?? (\<close>, the arguments joined with a comma
  and a space, and \<^verbatim>\<open>)\<close>; then a semicolon.
\<close>

definition spec_entity_line :: "Entity \<Rightarrow> string" where
  "spec_entity_line ent =
     command ent @ (if args ent \<noteq> [] then '' ?? ('' @ join '', '' (args ent) @ '')'' else []) @
     '';''"

section \<open>The getline loops\<close>

lemma spec_split_nonempty: "spec_split d s \<noteq> []"
  by (induction s) (auto split: list.splits)

lemma spec_split_unfold:
  "s \<noteq> [] \<Longrightarrow> spec_split d s =
     takeWhile (\<lambda>c. c \<noteq> d) s #
       (if d \<in> set s then spec_split d (drop 1 (dropWhile (\<lambda>c. c \<noteq> d) s)) else [])"
proof (induction s)
  case Nil
  then show ?case by simp
next
  case (Cons c cs)
  show ?case
  proof (cases "c = d")
    case True
    then show ?thesis by simp
  next
    case False
    show ?thesis
    proof (cases cs)
      case Nil
      with False show ?thesis by simp
    next
      case (Cons a list)
      with False Cons.IH show ?thesis by auto
    qed
  qed
qed

lemma getline_loop_step:
  assumes "s \<noteq> []"
  shows "getline s d = Some (takeWhile (\<lambda>c. c \<noteq> d) s, drop 1 (dropWhile (\<lambda>c. c \<noteq> d) s))"
    and "(if s = [] then [] else drop_last_empty (spec_split d s)) =
         takeWhile (\<lambda>c. c \<noteq> d) s #
           (if drop 1 (dropWhile (\<lambda>c. c \<noteq> d) s) = [] then []
            else drop_last_empty (spec_split d (drop 1 (dropWhile (\<lambda>c. c \<noteq> d) s))))"
proof -
  let ?tw = "takeWhile (\<lambda>c. c \<noteq> d) s"
  let ?r = "drop 1 (dropWhile (\<lambda>c. c \<noteq> d) s)"
  show "getline s d = Some (?tw, ?r)"
    using assms by (simp add: getline_def)
  show "(if s = [] then [] else drop_last_empty (spec_split d s)) =
         ?tw # (if ?r = [] then [] else drop_last_empty (spec_split d ?r))"
  proof (cases "d \<in> set s")
    case False
    then have all: "\<forall>x\<in>set s. x \<noteq> d" by blast
    then have "dropWhile (\<lambda>c. c \<noteq> d) s = []" by simp
    then have r: "?r = []" by (simp only: drop_Nil)
    have tw: "?tw = s" using all by (simp add: takeWhile_eq_all_conv)
    have sp: "spec_split d s = [s]"
      using spec_split_unfold [OF assms, of d] False tw by simp
    have "drop_last_empty [s] = [s]"
      using assms by (simp add: drop_last_empty_def)
    then show ?thesis
      using assms by (simp only: tw r sp if_False if_True refl)
  next
    case True
    have sp: "spec_split d s = ?tw # spec_split d ?r"
      using spec_split_unfold [OF assms, of d] True by simp
    have ne: "spec_split d ?r \<noteq> []" by (rule spec_split_nonempty)
    have dle: "drop_last_empty (?tw # spec_split d ?r) = ?tw # drop_last_empty (spec_split d ?r)"
      using ne by (simp add: drop_last_empty_def)
    show ?thesis
    proof (cases "?r = []")
      case True
      then have "spec_split d ?r = [[]]" by simp
      then show ?thesis using assms sp True by (simp add: drop_last_empty_def)
    next
      case False
      then show ?thesis using assms sp dle by simp
    qed
  qed
qed

lemma split_loop_eq:
  "split_loop s acc = acc @ (if s = [] then [] else drop_last_empty (spec_split NL s))"
proof (induction s acc rule: split_loop.induct)
  case (1 iss lines)
  show ?case
  proof (cases "iss = []")
    case True
    then show ?thesis by (simp add: split_loop.simps [of "[]"] getline_def)
  next
    case False
    let ?tw = "takeWhile (\<lambda>c. c \<noteq> NL) iss"
    let ?r = "drop 1 (dropWhile (\<lambda>c. c \<noteq> NL) iss)"
    note g = getline_loop_step(1) [OF False, of NL]
    have step: "split_loop iss lines = split_loop ?r (lines @ [?tw])"
      by (simp add: split_loop.simps [of iss] g)
    have ih: "split_loop ?r (lines @ [?tw]) =
        (lines @ [?tw]) @ (if ?r = [] then [] else drop_last_empty (spec_split NL ?r))"
      using "1.IH" [OF g refl] by simp
    show ?thesis
      unfolding step ih getline_loop_step(2) [OF False, of NL] by simp
  qed
qed

lemma split_lines_eq:
  "split_lines s = (if s = [] then [] else drop_last_empty (spec_split NL s))"
  by (simp add: split_lines_def split_loop_eq)

lemma spec_split_snoc: "spec_split d (s @ [d]) = spec_split d s @ [[]]"
proof (induction s)
  case Nil
  show ?case by simp
next
  case (Cons c cs)
  then show ?case
    using spec_split_nonempty [of d cs]
    by (cases "spec_split d cs") (auto)
qed

lemma spec_split_single: "spec_split d s = [p] \<Longrightarrow> p = s \<and> d \<notin> set s"
proof (induction s arbitrary: p)
  case Nil
  then show ?case by simp
next
  case (Cons c cs)
  show ?case
  proof (cases "c = d")
    case True
    with Cons.prems show ?thesis by (simp add: spec_split_nonempty)
  next
    case False
    obtain q qs where q: "spec_split d cs = q # qs"
      using spec_split_nonempty [of d cs] by (cases "spec_split d cs") auto
    with False Cons.prems have "qs = []" and "p = c # q" by auto
    with q Cons.IH [of q] False show ?thesis by simp
  qed
qed

lemma last_spec_split: "last (spec_split d s) = [] \<longleftrightarrow> s = [] \<or> last s = d"
proof (induction s)
  case Nil
  show ?case by simp
next
  case (Cons c cs)
  obtain q qs where q: "spec_split d cs = q # qs"
    using spec_split_nonempty [of d cs] by (cases "spec_split d cs") auto
  show ?case
  proof (cases "c = d")
    case True
    then have "last (spec_split d (c # cs)) = last (spec_split d cs)"
      by (simp add: q)
    with Cons.IH True show ?thesis by auto
  next
    case False
    show ?thesis
    proof (cases "qs = []")
      case True
      with q have "q = cs" and "d \<notin> set cs"
        using spec_split_single [of d cs q] by simp_all
      then have "last (c # cs) \<noteq> d"
        using False by (cases "cs = []") auto
      moreover have "last (spec_split d (c # cs)) \<noteq> []"
        using False q True by simp
      ultimately show ?thesis by simp
    next
      case qs: False
      then have "last (spec_split d (c # cs)) = last (spec_split d cs)"
        using False q by simp
      moreover have "cs \<noteq> []"
        using q qs by (cases cs) auto
      ultimately show ?thesis using Cons.IH by simp
    qed
  qed
qed

section \<open>The entity line parser\<close>

lemma is_space_whitespace: "c \<in> set whitespace \<longleftrightarrow> is_space c"
  by (auto simp: whitespace_def is_space_def)

lemma find_first_not_of_whitespace:
  "find_first_not_of t whitespace =
     (if \<forall>c\<in>set t. is_space c then None else Some (length (takeWhile is_space t)))"
  by (induction t) (auto simp: is_space_whitespace)

lemma erase_leading:
  "erase t 0 (find_first_not_of t whitespace) = Inr (dropWhile is_space t)"
proof (cases "\<forall>c\<in>set t. is_space c")
  case True
  then have dw: "dropWhile is_space t = []" by simp
  have ff: "find_first_not_of t whitespace = None"
    using True by (simp add: find_first_not_of_whitespace)
  have "erase t 0 None = Inr []" by (simp add: erase_def)
  then show ?thesis by (simp only: ff dw)
next
  case False
  then have ff: "find_first_not_of t whitespace = Some (length (takeWhile is_space t))"
    by (simp add: find_first_not_of_whitespace)
  have "erase t 0 (Some (length (takeWhile is_space t))) =
        Inr (drop (length (takeWhile is_space t)) t)"
    by (simp add: erase_def)
  then show ?thesis by (simp only: ff dropWhile_eq_drop)
qed

lemma erase_trailing:
  "erase t (case find_last_not_of t whitespace of None \<Rightarrow> 0 | Some k \<Rightarrow> k + 1) None =
     Inr (rev (dropWhile is_space (rev t)))"
proof (cases "\<forall>c\<in>set t. is_space c")
  case True
  then have "find_last_not_of t whitespace = None"
    by (simp add: find_last_not_of_def find_first_not_of_whitespace)
  moreover have "dropWhile is_space (rev t) = []"
    using True by simp
  ultimately show ?thesis
    by (simp add: erase_def)
next
  case False
  let ?k = "length (takeWhile is_space (rev t))"
  have fl: "find_last_not_of t whitespace = Some (length t - 1 - ?k)"
    using False by (simp add: find_last_not_of_def find_first_not_of_whitespace)
  have "takeWhile is_space (rev t) \<noteq> rev t"
    using False by (auto simp: takeWhile_eq_all_conv)
  moreover have "?k \<le> length (rev t)"
    by (rule length_takeWhile_le)
  ultimately have lt: "?k < length t"
    by (metis le_neq_implies_less length_rev takeWhile_eq_take take_all_iff le_refl)
  then have pos: "length t - 1 - ?k + 1 = length t - ?k" by arith
  have "rev (dropWhile is_space (rev t)) = rev (drop ?k (rev t))"
    by (simp add: dropWhile_eq_drop)
  also have "\<dots> = take (length t - ?k) t"
    by (simp add: rev_drop)
  finally show ?thesis
    using fl pos by (simp add: erase_def)
qed

lemma trim_token_eq: "trim_token t = Inr (spec_trim t)"
  by (simp add: trim_token_def erase_leading erase_trailing spec_trim_def)

lemma token_loop_eq:
  "token_loop s acc =
     Inr (acc @ filter (\<lambda>t. t \<noteq> []) (map spec_trim
        (if s = [] then [] else drop_last_empty (spec_split (CHR '','') s))))"
proof (induction s acc rule: token_loop.induct)
  case (1 ss as)
  show ?case
  proof (cases "ss = []")
    case True
    then show ?thesis by (simp add: token_loop.simps [of "[]"] getline_def)
  next
    case False
    let ?tw = "takeWhile (\<lambda>c. c \<noteq> CHR '','') ss"
    let ?r = "drop 1 (dropWhile (\<lambda>c. c \<noteq> CHR '','') ss)"
    let ?as = "if spec_trim ?tw \<noteq> [] then as @ [spec_trim ?tw] else as"
    note g = getline_loop_step(1) [OF False, of "CHR '',''"]
    have step: "token_loop ss as = token_loop ?r ?as"
      by (simp add: token_loop.simps [of ss] g trim_token_eq)
    have ih: "token_loop ?r ?as =
        Inr (?as @ filter (\<lambda>t. t \<noteq> []) (map spec_trim
          (if ?r = [] then [] else drop_last_empty (spec_split (CHR '','') ?r))))"
      using "1.IH" [OF g refl trim_token_eq] by simp
    show ?thesis
      unfolding step ih getline_loop_step(2) [OF False, of "CHR '',''"] by simp
  qed
qed

lemma spec_trim_Nil: "spec_trim [] = []"
  by (simp add: spec_trim_def)

lemma filter_trim_drop_last_empty:
  "filter (\<lambda>t. t \<noteq> []) (map spec_trim (if s = [] then [] else drop_last_empty (spec_split d s))) =
   filter (\<lambda>t. t \<noteq> []) (map spec_trim (spec_split d s))"
proof (cases "s = []")
  case True
  then show ?thesis by (simp add: spec_trim_Nil)
next
  case False
  have ne: "spec_split d s \<noteq> []" by (rule spec_split_nonempty)
  show ?thesis
  proof (cases "last (spec_split d s) = []")
    case True
    have "spec_split d s = butlast (spec_split d s) @ [[]]"
      using ne True append_butlast_last_id by metis
    then have "filter (\<lambda>t. t \<noteq> []) (map spec_trim (spec_split d s)) =
               filter (\<lambda>t. t \<noteq> []) (map spec_trim (butlast (spec_split d s) @ [[]]))"
      by simp
    also have "\<dots> = filter (\<lambda>t. t \<noteq> []) (map spec_trim (butlast (spec_split d s)))"
      by (simp add: spec_trim_Nil)
    finally show ?thesis
      using False True by (simp add: drop_last_empty_def)
  next
    case False
    then show ?thesis using \<open>s \<noteq> []\<close> by (simp add: drop_last_empty_def)
  qed
qed

lemma token_loop_spec_args: "token_loop s [] = Inr (spec_args s)"
  by (simp add: token_loop_eq filter_trim_drop_last_empty spec_args_def)

lemma find_str_bound:
  "find_str s pat = Some pos \<Longrightarrow> pos + length pat \<le> length s"
proof (induction s arbitrary: pos)
  case Nil
  then show ?case by (simp split: if_splits)
next
  case (Cons c cs)
  show ?case
  proof (cases "starts_with (c # cs) pat")
    case True
    then have "length (take (length pat) (c # cs)) = length pat"
      unfolding starts_with_def by simp
    then have "length pat \<le> length (c # cs)"
      by (simp only: length_take)
    with True Cons.prems show ?thesis by simp
  next
    case False
    with Cons.prems obtain p where "find_str cs pat = Some p" "pos = Suc p"
      by auto
    with Cons.IH [of p] show ?thesis by simp
  qed
qed

lemma paren_test_iff:
  "paren_test rest \<longleftrightarrow> (\<exists>inner. rest = CHR ''('' # inner @ [CHR '')''])"
proof
  assume p: "paren_test rest"
  then obtain c cs where r: "rest = c # cs" and c: "c = CHR ''(''"
    by (cases rest) (auto simp: paren_test_def)
  from p r c have "cs \<noteq> []" and "last cs = CHR '')''"
    by (auto simp: paren_test_def split: if_splits)
  then have "cs = butlast cs @ [CHR '')'']"
    using append_butlast_last_id by metis
  with r c show "\<exists>inner. rest = CHR ''('' # inner @ [CHR '')'']" by blast
next
  assume "\<exists>inner. rest = CHR ''('' # inner @ [CHR '')'']"
  then show "paren_test rest" by (auto simp: paren_test_def)
qed

lemma strip_parens_eq:
  "substr (CHR ''('' # inner @ [CHR '')'']) 1 (Some (length (CHR ''('' # inner @ [CHR '')'']) - 2))
     = Inr inner"
  by (simp add: substr_def)

lemma parse_entity_line_marker:
  assumes "find_str line ''??'' = Some pos"
  shows "parse_entity_line line =
     Inr \<lparr>command = take pos line,
          args = spec_args
            (if paren_test (drop (pos + 2) line) then butlast (tl (drop (pos + 2) line))
             else drop (pos + 2) line)\<rparr>"
proof -
  let ?rest = "drop (pos + 2) line"
  have b: "pos + 2 \<le> length line"
    using find_str_bound [OF assms] by simp
  have s1: "substr line 0 (Some pos) = Inr (take pos line)"
    by (simp add: substr_def)
  have s2: "substr line (pos + 2) None = Inr ?rest"
    using b by (simp add: substr_def)
  show ?thesis
  proof (cases "paren_test ?rest")
    case True
    then obtain inner where i: "?rest = CHR ''('' # inner @ [CHR '')'']"
      using paren_test_iff by blast
    have "substr ?rest 1 (Some (length ?rest - 2)) = Inr inner"
      unfolding i by (rule strip_parens_eq)
    moreover have "butlast (tl ?rest) = inner"
      unfolding i by simp
    ultimately show ?thesis
      using True assms s1 s2 by (simp add: parse_entity_line_def token_loop_spec_args)
  next
    case False
    then show ?thesis
      using assms s1 s2 by (simp add: parse_entity_line_def token_loop_spec_args)
  qed
qed

lemma parse_entity_line_no_marker:
  "find_str line ''??'' = None \<Longrightarrow> parse_entity_line line = Inr \<lparr>command = line, args = []\<rparr>"
  by (simp add: parse_entity_line_def)

lemma parse_entity_line_total: "\<exists>ent. parse_entity_line line = Inr ent"
  by (cases "find_str line ''??''")
     (simp_all add: parse_entity_line_no_marker parse_entity_line_marker)

lemma concat_filter_nonempty: "concat (filter (\<lambda>t. t \<noteq> []) xs) = concat xs"
  by (induction xs) auto

lemma filter_dropWhile_disjoint:
  "(\<And>x. Q x \<Longrightarrow> \<not> P x) \<Longrightarrow> filter P (dropWhile Q xs) = filter P xs"
  by (induction xs) auto

lemma parens_spec_trim: "parens (spec_trim t) = parens t"
proof -
  have d: "\<And>xs. parens (dropWhile is_space xs) = parens xs"
    unfolding parens_def
    by (rule filter_dropWhile_disjoint) (auto simp: is_space_def)
  have r: "\<And>xs. parens (rev xs) = rev (parens xs)"
    by (simp add: parens_def rev_filter)
  show ?thesis
    by (simp add: spec_trim_def r d)
qed

lemma filter_concat_spec_split:
  "\<not> P d \<Longrightarrow> filter P (concat (spec_split d s)) = filter P s"
proof (induction s)
  case Nil
  show ?case by simp
next
  case (Cons c cs)
  obtain q qs where q: "spec_split d cs = q # qs"
    using spec_split_nonempty [of d cs] by (cases "spec_split d cs") auto
  with Cons show ?case by auto
qed

lemma parens_concat: "parens (concat xs) = concat (map parens xs)"
  by (induction xs) (simp_all add: parens_def)

lemma parens_spec_args: "parens (concat (spec_args s)) = parens s"
proof -
  have "parens (concat (spec_args s)) = parens (concat (map spec_trim (spec_split (CHR '','') s)))"
    by (simp add: spec_args_def concat_filter_nonempty)
  also have "\<dots> = concat (map parens (spec_split (CHR '','') s))"
    by (simp add: parens_concat comp_def parens_spec_trim)
  also have "\<dots> = parens (concat (spec_split (CHR '','') s))"
    by (simp add: parens_concat)
  also have "\<dots> = parens s"
    unfolding parens_def by (rule filter_concat_spec_split) simp
  finally show ?thesis .
qed

section \<open>The program block extractor and the import collector\<close>

lemma entities_loop_append:
  "entities_loop (xs @ ys) b es =
     (case entities_loop xs b es of
        Inl e \<Rightarrow> Inl e
      | Inr es' \<Rightarrow> entities_loop ys (foldl flag_step b xs) es')"
proof (induction xs arbitrary: b es)
  case Nil
  show ?case by simp
next
  case (Cons x xs)
  obtain ent where ent: "parse_entity_line x = Inr ent"
    using parse_entity_line_total by blast
  define b' where "b' = flag_step b x"
  define es' where
    "es' = (if x \<noteq> ''#start'' \<and> x \<noteq> ''#end'' \<and> b \<and> x \<noteq> [] then es @ [ent] else es)"
  have l: "entities_loop ((x # xs) @ ys) b es = entities_loop (xs @ ys) b' es'"
    using ent by (simp add: b'_def es'_def flag_step_def)
  have r: "entities_loop (x # xs) b es = entities_loop xs b' es'"
    using ent by (simp add: b'_def es'_def flag_step_def)
  have f: "foldl flag_step b (x # xs) = foldl flag_step b' xs"
    by (simp add: b'_def)
  show ?case
    unfolding l r f by (rule Cons.IH)
qed

lemma entity_positions_snoc:
  "entity_positions (xs @ [x]) =
     entity_positions xs @
       (if x \<noteq> [] \<and> x \<noteq> ''#start'' \<and> x \<noteq> ''#end'' \<and> inside_flag xs then [length xs] else [])"
proof -
  have "filter (\<lambda>i. (xs @ [x]) ! i \<noteq> [] \<and> (xs @ [x]) ! i \<noteq> ''#start'' \<and>
                     (xs @ [x]) ! i \<noteq> ''#end'' \<and> inside_flag (take i (xs @ [x])))
          [0..<length xs] =
        filter (\<lambda>i. xs ! i \<noteq> [] \<and> xs ! i \<noteq> ''#start'' \<and> xs ! i \<noteq> ''#end'' \<and>
                     inside_flag (take i xs))
          [0..<length xs]"
    by (rule filter_cong) (auto simp: nth_append)
  then show ?thesis
    by (simp add: entity_positions_def)
qed

lemma entity_positions_bound: "i \<in> set (entity_positions xs) \<Longrightarrow> i < length xs"
  by (simp add: entity_positions_def)

lemma entities_loop_positions:
  "\<exists>es. entities_loop lines False [] = Inr es \<and>
        map Inr es = map (\<lambda>i. parse_entity_line (lines ! i)) (entity_positions lines)"
proof (induction lines rule: rev_induct)
  case Nil
  show ?case by (simp add: entity_positions_def)
next
  case (snoc x xs)
  then obtain es where es: "entities_loop xs False [] = Inr es"
    and m: "map Inr es = map (\<lambda>i. parse_entity_line (xs ! i)) (entity_positions xs)"
    by blast
  obtain ent where ent: "parse_entity_line x = Inr ent"
    using parse_entity_line_total by blast
  have m': "map (\<lambda>i. parse_entity_line ((xs @ [x]) ! i)) (entity_positions xs) = map Inr es"
    unfolding m by (rule map_cong) (auto simp: nth_append dest: entity_positions_bound)
  have l: "entities_loop (xs @ [x]) False [] = entities_loop [x] (inside_flag xs) es"
    by (simp add: entities_loop_append es inside_flag_def)
  show ?case
  proof (cases "x \<noteq> [] \<and> x \<noteq> ''#start'' \<and> x \<noteq> ''#end'' \<and> inside_flag xs")
    case True
    then have "entities_loop (xs @ [x]) False [] = Inr (es @ [ent])"
      using l ent by simp
    moreover have "map (\<lambda>i. parse_entity_line ((xs @ [x]) ! i)) (entity_positions (xs @ [x])) =
        map Inr (es @ [ent])"
      using True m' ent by (simp add: entity_positions_snoc)
    ultimately show ?thesis by simp
  next
    case False
    then have "entities_loop (xs @ [x]) False [] = Inr es"
      using l by auto
    moreover have "map (\<lambda>i. parse_entity_line ((xs @ [x]) ! i)) (entity_positions (xs @ [x])) =
        map Inr es"
      using False m' by (simp add: entity_positions_snoc)
    ultimately show ?thesis by simp
  qed
qed

lemma entities_loop_acc:
  "entities_loop ls b (es0 @ es) =
     (case entities_loop ls b es of Inl e \<Rightarrow> Inl e | Inr es' \<Rightarrow> Inr (es0 @ es'))"
proof (induction ls arbitrary: b es)
  case Nil
  show ?case by simp
next
  case (Cons x xs)
  obtain ent where ent: "parse_entity_line x = Inr ent"
    using parse_entity_line_total by blast
  define b' where "b' = flag_step b x"
  define es' where
    "es' = (if x \<noteq> ''#start'' \<and> x \<noteq> ''#end'' \<and> b \<and> x \<noteq> [] then es @ [ent] else es)"
  have l: "entities_loop (x # xs) b (es0 @ es) = entities_loop xs b' (es0 @ es')"
    using ent by (simp add: b'_def es'_def flag_step_def)
  have r: "entities_loop (x # xs) b es = entities_loop xs b' es'"
    using ent by (simp add: b'_def es'_def flag_step_def)
  show ?case
    unfolding l r by (rule Cons.IH)
qed

lemma entities_loop_open_block:
  "''#end'' \<notin> set post \<Longrightarrow>
   \<exists>es. entities_loop post True [] = Inr es \<and>
        map Inr es = map parse_entity_line (filter (\<lambda>l. l \<noteq> [] \<and> l \<noteq> ''#start'') post)"
proof (induction post rule: rev_induct)
  case Nil
  show ?case by simp
next
  case (snoc x xs)
  then obtain es where es: "entities_loop xs True [] = Inr es"
    and m: "map Inr es = map parse_entity_line (filter (\<lambda>l. l \<noteq> [] \<and> l \<noteq> ''#start'') xs)"
    by auto
  obtain ent where ent: "parse_entity_line x = Inr ent"
    using parse_entity_line_total by blast
  have f: "foldl flag_step True xs = True"
    using snoc.prems by (induction xs rule: rev_induct) (auto simp: flag_step_def)
  have "x \<noteq> ''#end''" using snoc.prems by auto
  then show ?case
    using es m ent f by (auto simp: entities_loop_append)
qed

lemma entity_at_position:
  assumes "i < length lines" and "lines ! i \<noteq> []" and "lines ! i \<noteq> ''#start''"
    and "lines ! i \<noteq> ''#end''" and "inside_flag (take i lines)"
    and "parse_entities_structured lines = Inr es"
    and "parse_entity_line (lines ! i) = Inr ent"
  shows "ent \<in> set es"
proof -
  have "i \<in> set (entity_positions lines)"
    using assms(1-5) by (simp add: entity_positions_def)
  moreover have "map Inr es = map (\<lambda>i. parse_entity_line (lines ! i)) (entity_positions lines)"
    using entities_loop_positions [of lines] assms(6)
    by (auto simp: parse_entities_structured_def)
  ultimately have "parse_entity_line (lines ! i) \<in> set (map Inr es :: (error + Entity) list)"
    by simp
  with assms(7) show ?thesis by auto
qed

lemma starts_with_length: "starts_with s p \<Longrightarrow> length p \<le> length s"
proof -
  assume "starts_with s p"
  then have "length (take (length p) s) = length p"
    unfolding starts_with_def by simp
  then show ?thesis by (simp only: length_take)
qed

lemma parse_imports_result:
  "\<exists>b. parse_imports lines bast = Inr b \<and>
       set (Imports b) =
         set (Imports bast) \<union> {drop 8 l | l. l \<in> set lines \<and> starts_with l ''#import ''} \<and>
       (distinct (Imports bast) \<longrightarrow> distinct (Imports b))"
proof (induction lines arbitrary: bast)
  case Nil
  show ?case by simp
next
  case (Cons x xs)
  show ?case
  proof (cases "starts_with x ''#import ''")
    case False
    with Cons.IH [of bast] show ?thesis by auto
  next
    case True
    then have "8 \<le> length x"
      using starts_with_length [of x "''#import ''"] by simp
    then have s: "substr x 8 None = Inr (drop 8 x)"
      by (simp add: substr_def)
    define bast' where
      "bast' = (if drop 8 x \<notin> set (Imports bast)
                then bast\<lparr>Imports := Imports bast @ [drop 8 x]\<rparr> else bast)"
    have p: "parse_imports (x # xs) bast = parse_imports xs bast'"
      using True s by (simp add: bast'_def)
    have i: "set (Imports bast') = set (Imports bast) \<union> {drop 8 x}"
      by (auto simp: bast'_def)
    have d: "distinct (Imports bast) \<longrightarrow> distinct (Imports bast')"
      by (auto simp: bast'_def)
    from Cons.IH [of bast'] obtain b where b: "parse_imports xs bast' = Inr b"
      and sb: "set (Imports b) =
         set (Imports bast') \<union> {drop 8 l | l. l \<in> set xs \<and> starts_with l ''#import ''}"
      and db: "distinct (Imports bast') \<longrightarrow> distinct (Imports b)"
      by blast
    have "set (Imports b) =
         set (Imports bast) \<union> {drop 8 l | l. l \<in> set (x # xs) \<and> starts_with l ''#import ''}"
      using sb i True by auto
    with p b d db show ?thesis by auto
  qed
qed

lemma find_str_import:
  "find_str (''#import '' @ X) ''??'' = None \<longleftrightarrow> find_str X ''??'' = None"
  by (simp add: starts_with_def)

section \<open>The reference builder\<close>

lemma markers_loop_absent:
  "i \<le> length lines \<Longrightarrow>
   (''#start'' \<notin> set (drop i lines) \<longrightarrow> fst (markers_loop lines i s e) = s) \<and>
   (''#end'' \<notin> set (drop i lines) \<longrightarrow> snd (markers_loop lines i s e) = e)"
proof (induction lines i s e rule: markers_loop.induct)
  case (1 lines i start_line end_line)
  show ?case
  proof (cases "i < length lines")
    case False
    then show ?thesis by (simp add: markers_loop.simps [of lines i])
  next
    case True
    then have d: "drop i lines = lines ! i # drop (i + 1) lines"
      by (simp add: Cons_nth_drop_Suc)
    from True have "i + 1 \<le> length lines" by simp
    note ih = "1.IH" [OF True this]
    show ?thesis
      using True ih unfolding d
      by (subst (1 2) markers_loop.simps) auto
  qed
qed

lemma markers_loop_last:
  assumes "i < p" and "p \<le> length lines"
  shows "(lines ! (p - 1) = ''#start'' \<and> ''#start'' \<notin> set (drop p lines) \<longrightarrow>
            fst (markers_loop lines i s e) = word_of_nat p) \<and>
         (lines ! (p - 1) = ''#end'' \<and> ''#end'' \<notin> set (drop p lines) \<longrightarrow>
            snd (markers_loop lines i s e) = word_of_nat p)"
  using assms
proof (induction lines i s e rule: markers_loop.induct)
  case (1 lines i start_line end_line)
  from "1.prems" have il: "i < length lines" by simp
  let ?s = "if lines ! i = ''#start'' then word_of_nat (i + 1) else start_line"
  let ?e = "if lines ! i = ''#end'' then word_of_nat (i + 1) else end_line"
  have step: "markers_loop lines i start_line end_line = markers_loop lines (i + 1) ?s ?e"
    using il by (subst markers_loop.simps) simp
  show ?case
  proof (cases "i + 1 = p")
    case True
    then have pi: "p - 1 = i" by simp
    have "i + 1 \<le> length lines" using il by simp
    note ab = markers_loop_absent [OF this, of ?s ?e]
    show ?thesis
      unfolding step pi using ab True by auto
  next
    case False
    with "1.prems" have "i + 1 < p" by simp
    from "1.IH" [OF il this "1.prems"(2)] show ?thesis
      unfolding step .
  qed
qed

lemma show_nat_digit: "n < 10 \<Longrightarrow> show_nat n = [digit_char n]"
  by (simp add: show_nat.simps [of n])

lemma show_int_nat: "show_int (int n) = show_nat n"
  by (simp add: show_int_def)

lemma show_int_minus_one: "show_int (- 1) = ''-1''"
  by (simp add: show_int_def show_nat_digit digit_char_def)

lemma sint_word_of_nat_32:
  "n < 2 ^ 31 \<Longrightarrow> sint (word_of_nat n :: 32 word) = int n"
proof -
  assume n: "n < 2 ^ 31"
  then have "int n < 2 ^ 31" by simp
  moreover have "- (2 ^ 31) \<le> int n" by simp
  ultimately have "signed_take_bit 31 (int n) = int n"
    by (simp add: signed_take_bit_int_eq_self)
  then show ?thesis by (simp add: signed_of_nat)
qed

lemma sint_word_2_31: "sint (word_of_nat 2147483648 :: 32 word) = - 2147483648"
  by (simp add: signed_of_nat)



lemma show_nat_step: "10 \<le> n \<Longrightarrow> show_nat n = show_nat (n div 10) @ [digit_char (n mod 10)]"
  by (simp add: show_nat.simps [of n])

lemma show_nat_2_31: "show_nat 2147483648 = ''2147483648''"
  by (simp add: show_nat_step show_nat_digit digit_char_def)

lemma show_int_2_31: "show_int (- 2147483648) = ''-2147483648''"
  by (simp add: show_int_def show_nat_2_31)

lemma references_fields:
  "References (parse_references lines bast) =
     References bast @
       [''start:'' @ show_int (sint (fst (markers_loop lines 0 (- 1) (- 1)))) @ '';'',
        ''end:'' @ show_int (sint (snd (markers_loop lines 0 (- 1) (- 1)))) @ '';'',
        ''endcode:'' @ show_int (sint (snd (markers_loop lines 0 (- 1) (- 1)))) @ '';'',
        ''bootstrapver:b26;'', ''bootstraprqcomp:b26c;'', ''bootstrapast:b26bast;'']"
  by (simp add: parse_references_def split_beta)

lemma last_pos_value:
  assumes "is_last_pos m lines p" and "p < 2 ^ 31"
  shows "(m = ''#start'' \<longrightarrow>
            show_int (sint (fst (markers_loop lines 0 (- 1) (- 1)))) = show_nat p) \<and>
         (m = ''#end'' \<longrightarrow>
            show_int (sint (snd (markers_loop lines 0 (- 1) (- 1)))) = show_nat p)"
proof -
  from assms(1) have p: "0 < p" "p \<le> length lines" and at: "lines ! (p - 1) = m"
    and after: "m \<notin> set (drop p lines)"
    by (simp_all add: is_last_pos_def)
  have s: "sint (word_of_nat p :: 32 word) = int p"
    using assms(2) by (rule sint_word_of_nat_32)
  note m = markers_loop_last [OF p, of "- 1" "- 1"]
  show ?thesis
    using m at after by (auto simp: s show_int_nat)
qed

section \<open>The debug serializer\<close>

lemma join_Cons: "join sep (x # xs) = x @ (if xs = [] then [] else sep @ join sep xs)"
  by (cases xs) simp_all

lemma args_loop_join:
  "i \<le> length as \<Longrightarrow> args_loop as i out = out @ join '', '' (drop i as)"
proof (induction as i out rule: args_loop.induct)
  case (1 as i out)
  show ?case
  proof (cases "i < length as")
    case False
    with "1.prems" show ?thesis
      by (subst args_loop.simps) simp
  next
    case True
    then have d: "drop i as = as ! i # drop (i + 1) as"
      by (simp add: Cons_nth_drop_Suc)
    from True have "i + 1 \<le> length as" by simp
    note ih = "1.IH" [OF True this]
    have step: "args_loop as i out =
        args_loop as (i + 1) (out @ as ! i @ (if i + 1 < length as then '', '' else []))"
      using True by (subst args_loop.simps) simp
    show ?thesis
      unfolding step ih d join_Cons by simp
  qed
qed


lemma write_entity_spec: "write_entity ent = spec_entity_line ent @ [NL]"
  by (simp add: write_entity_def spec_entity_line_def args_loop_join)

lemma serialize_entities_section:
  "serialize bast =
      ('';;details'' @ [NL] @ write_lines (Details bast) @
       '';;raw'' @ [NL] @ write_lines (Raw bast) @
       '';;imports'' @ [NL] @ write_lines (Imports bast)) @
      '';;entities'' @ [NL] @
      concat (map (\<lambda>ent. spec_entity_line ent @ [NL]) (Entities bast)) @
      '';;references'' @ [NL] @ write_lines (References bast)"
proof -
  have m: "map write_entity (Entities bast) =
        map (\<lambda>ent. spec_entity_line ent @ [NL]) (Entities bast)"
    by (rule map_cong) (simp_all add: write_entity_spec)
  show ?thesis
    unfolding serialize_def m by (simp only: append_assoc)
qed

section \<open>The claims of the specification\<close>

text \<open>
  Claim C1, as amended. For the text of the three lines \<^verbatim>\<open>#start\<close>,
  \<^verbatim>\<open>foo\<close>, \<^verbatim>\<open>#end\<close>, the assembled BAST has exactly one entity, with
  command \<^verbatim>\<open>foo\<close> and no arguments, and its references are \<^verbatim>\<open>start:1;\<close>,
  \<^verbatim>\<open>end:3;\<close>, \<^verbatim>\<open>endcode:3;\<close> and the three fixed entries. The start marker
  is the first line, so the start value is 1; \<^verbatim>\<open>start:2;\<close> is not among the
  references.
\<close>

theorem scenario_start_foo_end:
  "assemble fileloc start_time (''#start'' @ [NL] @ ''foo'' @ [NL] @ ''#end'') =
     Inr \<lparr>Imports = [],
          Entities = [\<lparr>command = ''foo'', args = []\<rparr>],
          References = [''start:1;'', ''end:3;'', ''endcode:3;'',
             ''bootstrapver:b26;'', ''bootstraprqcomp:b26c;'', ''bootstrapast:b26bast;''],
          Details = [''projectname='' @ fileloc,
             ''compile-start:'' @ show_int (sint start_time), ''num-entities:1''],
          Raw = [''#start'', ''foo'', ''#end'']\<rparr>"
proof -
  let ?lines = "[''#start'', ''foo'', ''#end'']"
  let ?b = "\<lparr>Imports = [], Entities = [], References = [], Details = [], Raw = ?lines\<rparr>"
  have l: "split_lines (''#start'' @ [NL] @ ''foo'' @ [NL] @ ''#end'') = ?lines"
    by code_simp
  have d: "default_BAST\<lparr>Raw := ?lines\<rparr> = ?b"
    by (simp add: default_BAST_def)
  have i: "parse_imports ?lines ?b = Inr ?b"
    by (simp add: starts_with_def)
  have m: "markers_loop ?lines 0 (- 1) (- 1) = (1, 3)"
    by code_simp
  have sh: "show_int 1 = ''1''" "show_int 3 = ''3''"
    by (simp_all add: show_int_def show_nat_digit digit_char_def)
  have p: "parse_references ?lines ?b =
      ?b\<lparr>References := [''start:1;'', ''end:3;'', ''endcode:3;'',
       ''bootstrapver:b26;'', ''bootstraprqcomp:b26c;'', ''bootstrapast:b26bast;'']\<rparr>"
    by (simp add: parse_references_def m sh)
  have e: "parse_entities_structured ?lines = Inr [\<lparr>command = ''foo'', args = []\<rparr>]"
    by code_simp
  have n: "show_nat (Suc 0) = ''1''"
    by (simp add: show_nat_digit digit_char_def)
  show ?thesis
    unfolding assemble_def l Let_def d i sum.case p e
    by (simp add: n)
qed

theorem scenario_start_two_counterexample:
  "''start:2;'' \<notin> set (References (parse_references
      (split_lines (''#start'' @ [NL] @ ''foo'' @ [NL] @ ''#end'')) default_BAST))"
  by code_simp

text \<open>
  Claim C2, as amended. For every line sequence, the reference builder writes
  the 1-based position of the last line equal to \<^verbatim>\<open>#start\<close> as the start
  value, and that of the last line equal to \<^verbatim>\<open>#end\<close> as the end value and
  as the endcode value, whenever that position is below \<open>2\<^sup>3\<^sup>1\<close>; with
  \<^verbatim>\<open>#start\<close> at the positions 2 and 5 the start value is 5. The positions are
  stored in an \<^verbatim>\<open>int\<close>: a marker at the position \<open>2\<^sup>3\<^sup>1\<close> is reported with a
  wrapped, negative number.
\<close>

theorem references_last_marker:
  "(is_last_pos ''#start'' lines p \<and> p < 2 ^ 31 \<longrightarrow>
      References (parse_references lines bast) ! length (References bast) =
        ''start:'' @ show_nat p @ '';'') \<and>
   (is_last_pos ''#end'' lines q \<and> q < 2 ^ 31 \<longrightarrow>
      References (parse_references lines bast) ! (length (References bast) + 1) =
        ''end:'' @ show_nat q @ '';'' \<and>
      References (parse_references lines bast) ! (length (References bast) + 2) =
        ''endcode:'' @ show_nat q @ '';'')"
proof (intro conjI impI)
  assume "is_last_pos ''#start'' lines p \<and> p < 2 ^ 31"
  then have "show_int (sint (fst (markers_loop lines 0 (- 1) (- 1)))) = show_nat p"
    using last_pos_value [of "''#start''" lines p] by blast
  then show "References (parse_references lines bast) ! length (References bast) =
          ''start:'' @ show_nat p @ '';''"
    by (simp add: references_fields)
next
  assume "is_last_pos ''#end'' lines q \<and> q < 2 ^ 31"
  then have v: "show_int (sint (snd (markers_loop lines 0 (- 1) (- 1)))) = show_nat q"
    using last_pos_value [of "''#end''" lines q] by blast
  then show "References (parse_references lines bast) ! (length (References bast) + 1) =
          ''end:'' @ show_nat q @ '';''"
    by (simp add: references_fields nth_append)
  from v show "References (parse_references lines bast) ! (length (References bast) + 2) =
          ''endcode:'' @ show_nat q @ '';''"
    by (simp add: references_fields nth_append)
qed

theorem references_last_marker_witness:
  "is_last_pos ''#start'' [''a'', ''#start'', ''b'', ''c'', ''#start'', ''#end''] 5 \<and>
   (5::nat) < 2 ^ 31 \<and>
   is_last_pos ''#end'' [''a'', ''#start'', ''b'', ''c'', ''#start'', ''#end''] 6 \<and>
   (6::nat) < 2 ^ 31 \<and>
   References (parse_references [''a'', ''#start'', ''b'', ''c'', ''#start'', ''#end'']
                 default_BAST) ! 0 = ''start:5;'' \<and>
   References (parse_references [''a'', ''#start'', ''b'', ''c'', ''#start'', ''#end'']
                 default_BAST) ! 1 = ''end:6;'' \<and>
   References (parse_references [''a'', ''#start'', ''b'', ''c'', ''#start'', ''#end'']
                 default_BAST) ! 2 = ''endcode:6;''"
proof -
  let ?lines = "[''a'', ''#start'', ''b'', ''c'', ''#start'', ''#end'']"
  have p: "is_last_pos ''#start'' ?lines 5" by (simp add: is_last_pos_def)
  have q: "is_last_pos ''#end'' ?lines 6" by (simp add: is_last_pos_def)
  have b: "(5::nat) < 2 ^ 31" "(6::nat) < 2 ^ 31" by simp_all
  have d: "show_nat 5 = ''5''" "show_nat 6 = ''6''"
    by (simp_all add: show_nat_digit digit_char_def)
  from references_last_marker [of ?lines 5 default_BAST 6] p q b d
  show ?thesis by (simp add: default_BAST_def numeral_2_eq_2)
qed

theorem references_int_overflow_counterexample:
  "is_last_pos ''#start'' (replicate 2147483647 [] @ [''#start'']) 2147483648 \<and>
   References (parse_references (replicate 2147483647 [] @ [''#start'']) default_BAST) ! 0 =
     ''start:-2147483648;'' \<and>
   ''start:-2147483648;'' \<noteq> ''start:'' @ show_nat 2147483648 @ '';''"
proof -
  let ?lines = "replicate 2147483647 [] @ [''#start'']"
  have p: "is_last_pos ''#start'' ?lines 2147483648"
    by (simp add: is_last_pos_def nth_append)
  have "(0::nat) < 2147483648" "(2147483648::nat) \<le> length ?lines" by simp_all
  note m = markers_loop_last [OF this, of "- 1" "- 1"]
  have "?lines ! (2147483648 - 1) = ''#start''" by (simp add: nth_append)
  moreover have "''#start'' \<notin> set (drop 2147483648 ?lines)" by simp
  ultimately have "fst (markers_loop ?lines 0 (- 1) (- 1)) = word_of_nat 2147483648"
    using m by blast
  then have r: "References (parse_references ?lines default_BAST) ! 0 = ''start:-2147483648;''"
    by (simp add: references_fields default_BAST_def sint_word_2_31 show_int_2_31)
  have "''start:-2147483648;'' \<noteq> ''start:'' @ show_nat 2147483648 @ '';''"
    by (simp add: show_nat_2_31)
  with p r show ?thesis by blast
qed

text \<open>
  Claim C3. For every line sequence the reference builder appends exactly six
  strings, in the order start, end, endcode, bootstrapver, bootstraprqcomp,
  bootstrapast; the last three are fixed literals, end and endcode carry the
  same value, and a marker that occurs on no line is represented by \<^verbatim>\<open>-1\<close>.
\<close>

theorem references_six_entries:
  "\<exists>S E. References (parse_references lines bast) =
           References bast @
             [''start:'' @ S @ '';'', ''end:'' @ E @ '';'', ''endcode:'' @ E @ '';'',
              ''bootstrapver:b26;'', ''bootstraprqcomp:b26c;'', ''bootstrapast:b26bast;''] \<and>
         (''#start'' \<notin> set lines \<longrightarrow> S = ''-1'') \<and>
         (''#end'' \<notin> set lines \<longrightarrow> E = ''-1'')"
proof -
  have "0 \<le> length lines" by simp
  note a = markers_loop_absent [OF this, of "- 1" "- 1"]
  have m: "sint (- 1 :: 32 word) = - 1" by simp
  show ?thesis
    using a by (auto simp: references_fields m show_int_minus_one)
qed

theorem references_six_entries_witness:
  "''#start'' \<notin> set [''foo'', ''#end''] \<and>
   References (parse_references [''foo'', ''#end''] default_BAST) =
     [''start:-1;'', ''end:2;'', ''endcode:2;'',
      ''bootstrapver:b26;'', ''bootstraprqcomp:b26c;'', ''bootstrapast:b26bast;''] \<and>
   References (parse_references [] default_BAST) =
     [''start:-1;'', ''end:-1;'', ''endcode:-1;'',
      ''bootstrapver:b26;'', ''bootstraprqcomp:b26c;'', ''bootstrapast:b26bast;'']"
proof -
  have h: "''#start'' \<notin> set [''foo'', ''#end'']" by simp
  have h0: "''#start'' \<notin> set []" "''#end'' \<notin> set []" by simp_all
  have e: "References (parse_references [''foo'', ''#end''] default_BAST) ! 1 = ''end:2;''"
    by code_simp
  from references_six_entries [of "[''foo'', ''#end'']" default_BAST] h e
  have 1: "References (parse_references [''foo'', ''#end''] default_BAST) =
     [''start:-1;'', ''end:2;'', ''endcode:2;'',
      ''bootstrapver:b26;'', ''bootstraprqcomp:b26c;'', ''bootstrapast:b26bast;'']"
    by (auto simp: default_BAST_def)
  from references_six_entries [of "[]" default_BAST] h0
  have 2: "References (parse_references [] default_BAST) =
     [''start:-1;'', ''end:-1;'', ''endcode:-1;'',
      ''bootstrapver:b26;'', ''bootstraprqcomp:b26c;'', ''bootstrapast:b26bast;'']"
    by (auto simp: default_BAST_def)
  from h 1 2 show ?thesis by blast
qed

text \<open>
  Claim C4, as amended. For every line containing the marker \<^verbatim>\<open>??\<close>, the
  first and the last character of the payload are removed before the comma
  splitting exactly when the payload opens with \<^verbatim>\<open>(\<close> and closes with
  \<^verbatim>\<open>)\<close>; nothing else is removed, and the parentheses of the tokens are, in
  order, those of the payload that was split. The test looks at the two
  characters only: the payload \<^verbatim>\<open>(a),(b)\<close>, which no pair of parentheses
  wraps, loses its first and last character all the same.
\<close>

theorem parens_stripped_by_first_and_last:
  assumes "find_str line ''??'' = Some pos"
  shows "\<exists>ent. parse_entity_line line = Inr ent \<and>
     (\<forall>inner. drop (pos + 2) line = CHR ''('' # inner @ [CHR '')''] \<longrightarrow>
        args ent = spec_args inner \<and> parens (concat (args ent)) = parens inner) \<and>
     ((\<nexists>inner. drop (pos + 2) line = CHR ''('' # inner @ [CHR '')'']) \<longrightarrow>
        args ent = spec_args (drop (pos + 2) line) \<and>
        parens (concat (args ent)) = parens (drop (pos + 2) line))"
proof (cases "paren_test (drop (pos + 2) line)")
  case True
  then obtain inner where i: "drop (pos + 2) line = CHR ''('' # inner @ [CHR '')'']"
    using paren_test_iff by blast
  then have "butlast (tl (drop (pos + 2) line)) = inner" by simp
  with True have "parse_entity_line line = Inr \<lparr>command = take pos line, args = spec_args inner\<rparr>"
    using parse_entity_line_marker [OF assms] by simp
  then show ?thesis
    using i by (auto simp: parens_spec_args)
next
  case False
  then have "parse_entity_line line =
      Inr \<lparr>command = take pos line, args = spec_args (drop (pos + 2) line)\<rparr>"
    using parse_entity_line_marker [OF assms] by simp
  moreover have "\<nexists>inner. drop (pos + 2) line = CHR ''('' # inner @ [CHR '')'']"
    using False paren_test_iff by blast
  ultimately show ?thesis
    by (auto simp: parens_spec_args)
qed

theorem parens_stripped_by_first_and_last_witness:
  "find_str ''f??((a),b)'' ''??'' = Some 1 \<and>
   (\<exists>ent. parse_entity_line ''f??((a),b)'' = Inr ent \<and> args ent = [''(a)'', ''b''] \<and>
      parens (concat (args ent)) = ''()'')"
proof -
  have h: "find_str ''f??((a),b)'' ''??'' = Some 1" by code_simp
  have d: "drop (1 + 2) ''f??((a),b)'' = CHR ''('' # ''(a),b'' @ [CHR '')'']" by simp
  have a: "spec_args ''(a),b'' = [''(a)'', ''b'']" by code_simp
  have p: "parens ''(a),b'' = ''()''" by code_simp
  from parens_stripped_by_first_and_last [OF h] obtain ent where
    e: "parse_entity_line ''f??((a),b)'' = Inr ent" and
    i: "\<forall>inner. drop (1 + 2) ''f??((a),b)'' = CHR ''('' # inner @ [CHR '')''] \<longrightarrow>
        args ent = spec_args inner \<and> parens (concat (args ent)) = parens inner"
    by blast
  from i d have "args ent = spec_args ''(a),b'' \<and> parens (concat (args ent)) = parens ''(a),b''"
    by blast
  with a p e h show ?thesis by auto
qed

theorem parens_two_pairs_counterexample:
  "paren_test ''(a),(b)'' \<and> \<not> spec_wrapped ''(a),(b)'' \<and>
   parse_entity_line ''x??(a),(b)'' = Inr \<lparr>command = ''x'', args = [''a)'', ''(b'']\<rparr>"
  by code_simp

text \<open>
  Claim C5. For every line containing the marker \<^verbatim>\<open>??\<close>, found first at
  position \<open>pos\<close>: the command is what precedes the marker, and the arguments
  are obtained from the payload (what follows the marker, with or without its
  enclosing parentheses) by splitting it on commas, trimming spaces, tabs,
  newlines and carriage returns at both ends of each token, and discarding the
  tokens that are then empty. No line makes the parser fail.
\<close>

theorem args_split_trim_discard:
  assumes "find_str line ''??'' = Some pos"
  shows "\<exists>payload.
     (payload = drop (pos + 2) line \<or> drop (pos + 2) line = CHR ''('' # payload @ [CHR '')'']) \<and>
     parse_entity_line line =
       Inr \<lparr>command = take pos line,
            args = filter (\<lambda>t. t \<noteq> []) (map spec_trim (spec_split (CHR '','') payload))\<rparr>"
proof (cases "paren_test (drop (pos + 2) line)")
  case True
  then obtain inner where i: "drop (pos + 2) line = CHR ''('' # inner @ [CHR '')'']"
    using paren_test_iff by blast
  then have "butlast (tl (drop (pos + 2) line)) = inner" by simp
  with True i show ?thesis
    using parse_entity_line_marker [OF assms] by (auto simp: spec_args_def)
next
  case False
  then show ?thesis
    using parse_entity_line_marker [OF assms] by (auto simp: spec_args_def)
qed

theorem args_split_trim_discard_witness:
  "find_str ''a??( x , y )'' ''??'' = Some 1 \<and>
   (\<exists>payload.
     (payload = drop (1 + 2) ''a??( x , y )'' \<or>
      drop (1 + 2) ''a??( x , y )'' = CHR ''('' # payload @ [CHR '')'']) \<and>
     parse_entity_line ''a??( x , y )'' =
       Inr \<lparr>command = take 1 ''a??( x , y )'',
            args = filter (\<lambda>t. t \<noteq> []) (map spec_trim (spec_split (CHR '','') payload))\<rparr>) \<and>
   parse_entity_line ''a??( x , y )'' = Inr \<lparr>command = ''a'', args = [''x'', ''y'']\<rparr> \<and>
   parse_entity_line ''c??a,,b'' = Inr \<lparr>command = ''c'', args = [''a'', ''b'']\<rparr> \<and>
   parse_entity_line (''c??  '' @ [CHR 0x09, CHR 0x0D]) = Inr \<lparr>command = ''c'', args = []\<rparr>"
proof -
  have h: "find_str ''a??( x , y )'' ''??'' = Some 1" by code_simp
  have e1: "parse_entity_line ''a??( x , y )'' = Inr \<lparr>command = ''a'', args = [''x'', ''y'']\<rparr>"
    by code_simp
  have e2: "parse_entity_line ''c??a,,b'' = Inr \<lparr>command = ''c'', args = [''a'', ''b'']\<rparr>"
    by code_simp
  have e3: "parse_entity_line (''c??  '' @ [CHR 0x09, CHR 0x0D]) = Inr \<lparr>command = ''c'', args = []\<rparr>"
    by code_simp
  from args_split_trim_discard [OF h] h e1 e2 e3 show ?thesis by blast
qed

text \<open>
  Claim C6. For every entity the serializer writes one line: the command,
  then, only if the arguments are not empty, \<^verbatim>\<open> ?? (\<close> followed by the
  arguments joined with \<^verbatim>\<open>, \<close> and a closing \<^verbatim>\<open>)\<close>, and in every case a
  terminating semicolon. The entities section of the debug file is made of
  these lines, one for each entity in order.
\<close>

theorem entity_serialized:
  "write_entity ent = spec_entity_line ent @ [NL] \<and>
   (\<exists>before. serialize bast =
      before @ '';;entities'' @ [NL] @
      concat (map (\<lambda>ent. spec_entity_line ent @ [NL]) (Entities bast)) @
      '';;references'' @ [NL] @ write_lines (References bast))"
  using write_entity_spec [of ent] serialize_entities_section [of bast] by blast

theorem entity_serialized_witness:
  "write_entity \<lparr>command = ''greet'', args = [''name'', ''Bob'']\<rparr> = ''greet ?? (name, Bob);'' @ [NL] \<and>
   write_entity \<lparr>command = ''foo'', args = []\<rparr> = ''foo;'' @ [NL]"
proof -
  have 1: "spec_entity_line \<lparr>command = ''greet'', args = [''name'', ''Bob'']\<rparr> = ''greet ?? (name, Bob);''"
    by (simp add: spec_entity_line_def)
  have 2: "spec_entity_line \<lparr>command = ''foo'', args = []\<rparr> = ''foo;''"
    by (simp add: spec_entity_line_def)
  note a = entity_serialized
    [of "\<lparr>command = ''greet'', args = [''name'', ''Bob'']\<rparr>" default_BAST, THEN conjunct1]
  note b = entity_serialized
    [of "\<lparr>command = ''foo'', args = []\<rparr>" default_BAST, THEN conjunct1]
  show ?thesis
    unfolding a b 1 2 by simp
qed

text \<open>
  Claim C7. For every line sequence the extractor returns, in line order, the
  parsed entities of exactly the lines at the positions \<open>entity_positions\<close>:
  the lines that are non-empty, are neither \<^verbatim>\<open>#start\<close> nor \<^verbatim>\<open>#end\<close>, and
  are met while the inside-program flag is true. Marker lines and lines outside
  every span are therefore never entities. After a \<^verbatim>\<open>#start\<close> that no
  \<^verbatim>\<open>#end\<close> follows, every later non-empty line that is not itself a marker
  is an entity, added to those of the lines before.
\<close>

theorem entities_iff_inside_program:
  "(\<exists>es. parse_entities_structured lines = Inr es \<and>
         map Inr es = map (\<lambda>i. parse_entity_line (lines ! i)) (entity_positions lines)) \<and>
   (''#end'' \<notin> set post \<longrightarrow>
     (\<exists>es1 es2. parse_entities_structured pre = Inr es1 \<and>
        parse_entities_structured (pre @ ''#start'' # post) = Inr (es1 @ es2) \<and>
        map Inr es2 = map parse_entity_line (filter (\<lambda>l. l \<noteq> [] \<and> l \<noteq> ''#start'') post)))"
proof (intro conjI impI)
  show "\<exists>es. parse_entities_structured lines = Inr es \<and>
         map Inr es = map (\<lambda>i. parse_entity_line (lines ! i)) (entity_positions lines)"
    unfolding parse_entities_structured_def by (rule entities_loop_positions)
next
  assume "''#end'' \<notin> set post"
  then obtain es2 where e2: "entities_loop post True [] = Inr es2"
    and m: "map Inr es2 = map parse_entity_line (filter (\<lambda>l. l \<noteq> [] \<and> l \<noteq> ''#start'') post)"
    using entities_loop_open_block by blast
  obtain es1 where e1: "entities_loop pre False [] = Inr es1"
    using entities_loop_positions [of pre] by blast
  have "entities_loop post True (es1 @ []) = Inr (es1 @ es2)"
    unfolding entities_loop_acc [of post True es1 "[]"] by (simp add: e2)
  then have "entities_loop (pre @ ''#start'' # post) False [] = Inr (es1 @ es2)"
    by (simp add: entities_loop_append e1)
  with e1 m show "\<exists>es1 es2. parse_entities_structured pre = Inr es1 \<and>
        parse_entities_structured (pre @ ''#start'' # post) = Inr (es1 @ es2) \<and>
        map Inr es2 = map parse_entity_line (filter (\<lambda>l. l \<noteq> [] \<and> l \<noteq> ''#start'') post)"
    unfolding parse_entities_structured_def by blast
qed

theorem entities_iff_inside_program_witness:
  "''#end'' \<notin> set [''b'', '''', ''#start'', ''c??d''] \<and>
   entity_positions [''a'', ''#start'', ''b'', ''#end'', ''x'', ''#start'', '''', ''c??d''] = [2, 7] \<and>
   parse_entities_structured [''a'', ''#start'', ''b'', ''#end'', ''x'', ''#start'', '''', ''c??d''] =
     Inr [\<lparr>command = ''b'', args = []\<rparr>, \<lparr>command = ''c'', args = [''d'']\<rparr>] \<and>
   (\<exists>es1 es2. parse_entities_structured [''a''] = Inr es1 \<and>
      parse_entities_structured ([''a''] @ ''#start'' # [''b'', '''', ''#start'', ''c??d'']) =
        Inr (es1 @ es2) \<and>
      map Inr es2 =
        map parse_entity_line
          (filter (\<lambda>l. l \<noteq> [] \<and> l \<noteq> ''#start'') [''b'', '''', ''#start'', ''c??d'']))"
proof -
  let ?lines = "[''a'', ''#start'', ''b'', ''#end'', ''x'', ''#start'', '''', ''c??d'']"
  have h: "''#end'' \<notin> set [''b'', '''', ''#start'', ''c??d'']" by simp
  have p: "entity_positions ?lines = [2, 7]" by code_simp
  have l2: "parse_entity_line (?lines ! 2) = Inr \<lparr>command = ''b'', args = []\<rparr>" by code_simp
  have l7: "parse_entity_line (?lines ! 7) = Inr \<lparr>command = ''c'', args = [''d'']\<rparr>" by code_simp
  note t = entities_iff_inside_program
    [of ?lines "[''b'', '''', ''#start'', ''c??d'']" "[''a'']"]
  from t obtain es where e: "parse_entities_structured ?lines = Inr es"
    and m: "map Inr es = map (\<lambda>i. parse_entity_line (?lines ! i)) (entity_positions ?lines)"
    by blast
  from m have "map Inr es = map (\<lambda>i. parse_entity_line (?lines ! i)) [2, 7]"
    by (simp only: p)
  with l2 l7
  have "(map Inr es :: (error + Entity) list) =
      map Inr [\<lparr>command = ''b'', args = []\<rparr>, \<lparr>command = ''c'', args = [''d'']\<rparr>]"
    by simp
  then have "es = [\<lparr>command = ''b'', args = []\<rparr>, \<lparr>command = ''c'', args = [''d'']\<rparr>]"
    using inj_map_eq_map [OF inj_Inr] by blast
  with e h p t show ?thesis by blast
qed

text \<open>
  Claim C8. If the input path cannot be opened for reading, \<^verbatim>\<open>compile\<close> prints
  \<^verbatim>\<open>b26c=1\<close> and \<^verbatim>\<open>file-opened: 0\<close>, returns the exit code 1 and leaves
  every file as it was: nothing is parsed and nothing is written.
\<close>

theorem compile_open_failure:
  assumes "files w fileloc = None"
  shows "compile w fileloc o_name =
     \<lparr>exit_code = 1,
      stdout = ''b26c=1'' @ [NL] @ ''file-opened: 0'' @ [NL],
      files_after = files w\<rparr>"
  using assms by (simp add: compile_def)

theorem compile_open_failure_witness:
  "files \<lparr>files = (\<lambda>p. None), writable = (\<lambda>p. True), clock = 0, what = (\<lambda>e. [])\<rparr>
     ''missing.btsp'' = None \<and>
   compile \<lparr>files = (\<lambda>p. None), writable = (\<lambda>p. True), clock = 0, what = (\<lambda>e. [])\<rparr>
     ''missing.btsp'' ''main'' =
     \<lparr>exit_code = 1,
      stdout = ''b26c=1'' @ [NL] @ ''file-opened: 0'' @ [NL],
      files_after = (\<lambda>p. None)\<rparr>"
proof -
  let ?w = "\<lparr>files = (\<lambda>p. None), writable = (\<lambda>p. True), clock = 0, what = (\<lambda>e. [])\<rparr>
    :: world"
  have h: "files ?w ''missing.btsp'' = None" by simp
  from compile_open_failure [OF h, of "''main''"] h show ?thesis by simp
qed

text \<open>
  Claim C9, as amended. A line \<^verbatim>\<open>#import X\<close> met while the inside-program flag
  is true, with no \<^verbatim>\<open>??\<close> in \<open>X\<close>, is collected both as the import \<open>X\<close>
  (the import list staying free of duplicates) and as an entity whose command
  is the whole line and whose arguments are empty. When \<open>X\<close> contains
  \<^verbatim>\<open>??\<close> the entity is split there like that of any other line.
\<close>

theorem import_line_inside_program:
  assumes "i < length lines" and "lines ! i = ''#import '' @ X"
    and "inside_flag (take i lines)" and "find_str X ''??'' = None"
  shows "\<exists>b es. parse_imports lines bast = Inr b \<and> X \<in> set (Imports b) \<and>
           (distinct (Imports bast) \<longrightarrow> distinct (Imports b)) \<and>
           parse_entities_structured lines = Inr es \<and>
           \<lparr>command = ''#import '' @ X, args = []\<rparr> \<in> set es"
proof -
  obtain b where b: "parse_imports lines bast = Inr b"
    and sb: "set (Imports b) =
         set (Imports bast) \<union> {drop 8 l | l. l \<in> set lines \<and> starts_with l ''#import ''}"
    and db: "distinct (Imports bast) \<longrightarrow> distinct (Imports b)"
    using parse_imports_result by blast
  have "lines ! i \<in> set lines" using assms(1) by simp
  moreover have "starts_with (lines ! i) ''#import ''"
    by (simp add: assms(2) starts_with_def)
  moreover have "drop 8 (lines ! i) = X"
    by (simp add: assms(2))
  ultimately have x: "X \<in> set (Imports b)"
    unfolding sb by blast
  obtain es where es: "parse_entities_structured lines = Inr es"
    using entities_loop_positions [of lines] by (auto simp: parse_entities_structured_def)
  have "find_str (lines ! i) ''??'' = None"
    unfolding assms(2) using assms(4) by (simp only: find_str_import)
  then have "parse_entity_line (lines ! i) = Inr \<lparr>command = ''#import '' @ X, args = []\<rparr>"
    using parse_entity_line_no_marker [of "lines ! i"] assms(2) by simp
  moreover have "lines ! i \<noteq> []" "lines ! i \<noteq> ''#start''" "lines ! i \<noteq> ''#end''"
    by (simp_all add: assms(2))
  ultimately have "\<lparr>command = ''#import '' @ X, args = []\<rparr> \<in> set es"
    using entity_at_position [OF assms(1) _ _ _ assms(3) es] by blast
  with b x db es show ?thesis by blast
qed

theorem import_line_inside_program_witness:
  "(1::nat) < length [''#start'', ''#import X'', ''#import X''] \<and>
   [''#start'', ''#import X'', ''#import X''] ! 1 = ''#import '' @ ''X'' \<and>
   inside_flag (take 1 [''#start'', ''#import X'', ''#import X'']) \<and>
   find_str ''X'' ''??'' = None \<and>
   parse_imports [''#start'', ''#import X'', ''#import X''] default_BAST =
     Inr (default_BAST\<lparr>Imports := [''X'']\<rparr>) \<and>
   parse_entities_structured [''#start'', ''#import X'', ''#import X''] =
     Inr [\<lparr>command = ''#import X'', args = []\<rparr>, \<lparr>command = ''#import X'', args = []\<rparr>] \<and>
   (\<exists>b es. parse_imports [''#start'', ''#import X'', ''#import X''] default_BAST = Inr b \<and>
      ''X'' \<in> set (Imports b) \<and>
      (distinct (Imports default_BAST) \<longrightarrow> distinct (Imports b)) \<and>
      parse_entities_structured [''#start'', ''#import X'', ''#import X''] = Inr es \<and>
      \<lparr>command = ''#import '' @ ''X'', args = []\<rparr> \<in> set es)"
proof -
  let ?lines = "[''#start'', ''#import X'', ''#import X'']"
  have h1: "(1::nat) < length ?lines" by simp
  have h2: "?lines ! 1 = ''#import '' @ ''X''" by simp
  have h3: "inside_flag (take 1 ?lines)" by code_simp
  have h4: "find_str ''X'' ''??'' = None" by code_simp
  have e1: "parse_imports ?lines default_BAST = Inr (default_BAST\<lparr>Imports := [''X'']\<rparr>)"
    by code_simp
  have e2: "parse_entities_structured ?lines =
     Inr [\<lparr>command = ''#import X'', args = []\<rparr>, \<lparr>command = ''#import X'', args = []\<rparr>]"
    by code_simp
  from import_line_inside_program [OF h1 h2 h3 h4, of default_BAST] h1 h2 h3 h4 e1 e2
  show ?thesis by blast
qed

theorem import_with_marker_counterexample:
  "inside_flag (take 1 [''#start'', ''#import a??b'']) \<and>
   parse_entities_structured [''#start'', ''#import a??b''] =
     Inr [\<lparr>command = ''#import a'', args = [''b'']\<rparr>] \<and>
   \<lparr>command = ''#import a??b'', args = []\<rparr> \<notin> set [\<lparr>command = ''#import a'', args = [''b'']\<rparr>]"
  by code_simp

text \<open>
  Claim C10, as amended. For every non-empty text that does not end with a line
  break, appending a line break changes neither the line sequence nor anything
  else that is assembled from the text: the terminating line break of a
  non-empty file is not observable. Stated for every text, the claim fails at
  the empty text: a file holding only a line break has one empty line, the
  empty file has none.
\<close>

theorem split_lines_trailing_newline:
  assumes "s \<noteq> []" and "last s \<noteq> NL"
  shows "split_lines (s @ [NL]) = split_lines s \<and>
         assemble fileloc start_time (s @ [NL]) = assemble fileloc start_time s"
proof -
  have "last (spec_split NL s) \<noteq> []"
    using assms by (simp add: last_spec_split)
  then have "split_lines (s @ [NL]) = split_lines s"
    using assms(1) by (simp add: split_lines_eq spec_split_snoc drop_last_empty_def)
  then show ?thesis by (simp add: assemble_def)
qed

theorem split_lines_trailing_newline_witness:
  "''ab'' \<noteq> [] \<and> last ''ab'' \<noteq> NL \<and>
   split_lines (''ab'' @ [NL]) = split_lines ''ab'' \<and> split_lines ''ab'' = [''ab''] \<and>
   assemble ''m.btsp'' 0 (''ab'' @ [NL]) = assemble ''m.btsp'' 0 ''ab''"
proof -
  have h1: "''ab'' \<noteq> []" by simp
  have h2: "last ''ab'' \<noteq> NL" by (simp add: NL_def)
  have e: "split_lines ''ab'' = [''ab'']" by code_simp
  show ?thesis
    using split_lines_trailing_newline [OF h1 h2, of "''m.btsp''" 0] h1 h2 e by simp
qed

theorem split_lines_empty_text_counterexample:
  "split_lines ('''' @ [NL]) \<noteq> split_lines ''''"
  by code_simp

end
